theory Spec2Isabelle
  imports Main "HOL-Library.Word"
begin

section \<open>Outcomes of a call\<close>

text \<open>
  A Go call either returns, panics (a nil dereference or an explicit \<open>panic\<close>), or
  never returns (a \<open>for\<close> loop whose condition stays true). A call changes its
  receiver in place, so a panic leaves the receiver as it was at the panicking
  statement: \<open>Panics\<close> carries that state, which a caller that recovers goes on to use.
\<close>

datatype ('a, 's) outcome = Returns 'a | Panics string 's | Hangs

definition and_then :: "('a, 's) outcome \<Rightarrow> ('a \<Rightarrow> ('b, 's) outcome) \<Rightarrow> ('b, 's) outcome" where
  "and_then r f = (case r of Returns x \<Rightarrow> f x | Panics m s \<Rightarrow> Panics m s | Hangs \<Rightarrow> Hangs)"

definition nil_dereference :: string where
  "nil_dereference = ''invalid memory address or nil pointer dereference''"

section \<open>The LRU-K cache (package lru)\<close>

text \<open>
  A \<open>Value\<close> is an interface value with a method \<open>Len\<close>. The two implementations in
  the repository (\<open>String\<close> of the tests and \<open>ByteView\<close>) are byte strings whose
  \<open>Len\<close> is the number of bytes, so a non-nil value is \<open>Some\<close> string; the nil
  interface value is \<open>None\<close>. Calling \<open>Len\<close> on the nil interface panics.

  Byte counts are \<open>int64\<close>: 64-bit words, on which \<open>+\<close> and \<open>-\<close> wrap around and
  which are compared as signed numbers (\<open><s\<close>, \<open>\<le>s\<close>). The threshold \<open>k\<close> and the
  counters are of type \<open>int\<close>, taken at its 64-bit width.
\<close>

type_synonym Value = "string option"

type_synonym int64 = "64 word"

definition int64_len :: "string \<Rightarrow> int64" where
  "int64_len s = of_nat (length s)"

text \<open>
  An \<open>entry\<close> is a pair of a key and a value. A \<open>list.List\<close> is the list of its
  entries, front first. The index \<open>mp\<close> maps a key to the list node that holds it;
  the code changes the list and the index in adjacent statements, with no panicking
  statement between the two other than the one noted at \<open>drop_history\<close>, so \<open>mp[key]\<close>
  is read as the search of the list for the key (\<open>map_of\<close>) and removing a node found
  through \<open>mp\<close> is \<open>remove1\<close> of that entry.

  The fields of \<open>HistoryCache\<close> carry the prefix \<open>hc_\<close>, since both structs of the
  source use the names \<open>maxBytes\<close>, \<open>useBytes\<close>, \<open>ll\<close> and \<open>mp\<close>.
\<close>

type_synonym entry = "string \<times> Value"

record HistoryCache =
  hc_k :: int64
  hc_maxBytes :: int64
  hc_useBytes :: int64
  hc_ll :: "entry list"
  hc_cnt :: "string \<rightharpoonup> int64"

text \<open>
  \<open>OnEvicted\<close> is a callback or nil. The model records whether a callback is
  installed and keeps, in \<open>evicted\<close>, the arguments of its invocations in order.
\<close>

record Cache =
  maxBytes :: int64
  useBytes :: int64
  ll :: "entry list"
  OnEvicted :: bool
  evicted :: "entry list"
  historyCache :: HistoryCache

definition New :: "int64 \<Rightarrow> bool \<Rightarrow> int64 \<Rightarrow> Cache" where
  "New maxB onEvicted kk =
     \<lparr> maxBytes = maxB, useBytes = 0, ll = [], OnEvicted = onEvicted, evicted = [],
       historyCache = \<lparr> hc_k = kk, hc_maxBytes = maxB, hc_useBytes = 0, hc_ll = [],
                        hc_cnt = Map.empty \<rparr> \<rparr>"

text \<open>Reading a Go map of integers at an absent key gives 0; \<open>cnt[key]++\<close> stores the successor.\<close>

definition cnt_get :: "(string \<rightharpoonup> int64) \<Rightarrow> string \<Rightarrow> int64" where
  "cnt_get m key = (case m key of None \<Rightarrow> 0 | Some n \<Rightarrow> n)"

definition cnt_incr :: "(string \<rightharpoonup> int64) \<Rightarrow> string \<Rightarrow> (string \<rightharpoonup> int64)" where
  "cnt_incr m key = m(key \<mapsto> cnt_get m key + 1)"

definition fire :: "Cache \<Rightarrow> string \<Rightarrow> Value \<Rightarrow> Cache" where
  "fire c key value = (if OnEvicted c then c\<lparr>evicted := evicted c @ [(key, value)]\<rparr> else c)"

text \<open>
  \<open>RemoveCacheOldest\<close> takes the back node out of the list and the index, then
  subtracts its size, which panics on a nil value, then calls the callback.
\<close>

definition RemoveCacheOldest :: "Cache \<Rightarrow> (Cache, Cache) outcome" where
  "RemoveCacheOldest c =
     (if ll c = [] then Returns c
      else (case last (ll c) of (key, value) \<Rightarrow>
        (let c1 = c\<lparr>ll := butlast (ll c)\<rparr> in
         case value of
           None \<Rightarrow> Panics nil_dereference c1
         | Some v \<Rightarrow>
             Returns (fire (c1\<lparr>useBytes := useBytes c1 - (int64_len v + int64_len key)\<rparr>)
                        key value))))"

definition RemoveHistoryCacheOldest :: "Cache \<Rightarrow> (Cache, Cache) outcome" where
  "RemoveHistoryCacheOldest c =
     (let h = historyCache c in
      case hc_ll h of
        [] \<Rightarrow> Returns c
      | (key, value) # rest \<Rightarrow>
          (let h1 = h\<lparr>hc_ll := rest, hc_cnt := (hc_cnt h)(key := None)\<rparr> in
           case value of
             None \<Rightarrow> Panics nil_dereference (c\<lparr>historyCache := h1\<rparr>)
           | Some v \<Rightarrow>
               Returns (fire (c\<lparr>historyCache :=
                                  h1\<lparr>hc_useBytes := hc_useBytes h - (int64_len v + int64_len key)\<rparr>\<rparr>)
                          key value)))"

text \<open>
  The eviction loop of \<open>AddToCache\<close>. On an empty list \<open>RemoveCacheOldest\<close> changes
  nothing, so the loop may run forever: not returning is \<open>None\<close>.
\<close>

partial_function (option) evict_loop :: "Cache \<Rightarrow> (Cache, Cache) outcome option" where
  "evict_loop c =
     (if maxBytes c \<noteq> 0 \<and> maxBytes c <s useBytes c
      then (case RemoveCacheOldest c of
              Returns c' \<Rightarrow> evict_loop c'
            | Panics m s \<Rightarrow> Some (Panics m s)
            | Hangs \<Rightarrow> Some Hangs)
      else Some (Returns c))"

declare evict_loop.simps [code]

text \<open>
  \<open>AddToCache\<close> pushes the entry on the front of the list and into the index before
  it calls \<open>value.Len()\<close>: on a nil value the panic leaves the entry in the main queue.
\<close>

definition AddToCache :: "Cache \<Rightarrow> string \<Rightarrow> Value \<Rightarrow> (Cache, Cache) outcome" where
  "AddToCache c key value =
     (let c1 = c\<lparr>ll := (key, value) # ll c\<rparr> in
      case value of
        None \<Rightarrow> Panics nil_dereference c1
      | Some v \<Rightarrow>
          (case evict_loop (c1\<lparr>useBytes := useBytes c1 + (int64_len key + int64_len v)\<rparr>) of
             None \<Rightarrow> Hangs
           | Some r \<Rightarrow> r))"

text \<open>
  The end of a promotion, in \<open>Add\<close> and in \<open>Get\<close>: the node of the history queue is
  removed from the list, its size is subtracted, and the key is deleted from the index
  and from the counters. The subtraction would panic on a nil value, between the
  removal from the list and the deletion from the index; no call reaches that case,
  since it follows an \<open>AddToCache\<close> that has returned: in \<open>Add\<close> the value of the node
  is then the non-nil argument, and in \<open>Get\<close> \<open>AddToCache\<close> does not return.
\<close>

definition drop_history :: "Cache \<Rightarrow> string \<Rightarrow> Value \<Rightarrow> (Cache, Cache) outcome" where
  "drop_history c key value =
     (let h = historyCache c;
          h1 = h\<lparr>hc_ll := remove1 (key, value) (hc_ll h)\<rparr> in
      case value of
        None \<Rightarrow> Panics nil_dereference (c\<lparr>historyCache := h1\<rparr>)
      | Some v \<Rightarrow>
          Returns (c\<lparr>historyCache :=
                       h1\<lparr>hc_useBytes := hc_useBytes h - (int64_len v + int64_len key),
                          hc_cnt := (hc_cnt h)(key := None)\<rparr>\<rparr>))"

text \<open>
  \<open>Get\<close>. At the threshold it calls \<open>AddToCache\<close> with its own result variable
  \<open>value\<close>, which is nil at that point.
\<close>

definition Get :: "Cache \<Rightarrow> string \<Rightarrow> ((Value \<times> bool) \<times> Cache, Cache) outcome" where
  "Get c key =
     (case map_of (ll c) key of
        Some value \<Rightarrow>
          Returns ((value, True), c\<lparr>ll := (key, value) # remove1 (key, value) (ll c)\<rparr>)
      | None \<Rightarrow>
          (let h = historyCache c in
           case map_of (hc_ll h) key of
             Some value \<Rightarrow>
               (let h1 = h\<lparr>hc_cnt := cnt_incr (hc_cnt h) key\<rparr>;
                    c1 = c\<lparr>historyCache := h1\<rparr> in
                if hc_k h1 \<le>s cnt_get (hc_cnt h1) key
                then and_then (AddToCache c1 key None)
                       (\<lambda>c2. and_then (drop_history c2 key value)
                          (\<lambda>c3. Returns ((value, True), c3)))
                else Returns ((value, True),
                       c\<lparr>historyCache :=
                           h1\<lparr>hc_ll := remove1 (key, value) (hc_ll h1) @ [(key, value)]\<rparr>\<rparr>))
           | None \<Rightarrow> Returns ((None, False), c)))"

text \<open>
  The promotion at the end of \<open>Add\<close>. The node is looked up after \<open>AddToCache\<close>; a nil
  node panics at \<open>ele.Value\<close>.
\<close>

definition promote :: "Cache \<Rightarrow> string \<Rightarrow> Value \<Rightarrow> (Cache, Cache) outcome" where
  "promote c key value =
     (if hc_k (historyCache c) \<le>s cnt_get (hc_cnt (historyCache c)) key
      then and_then (AddToCache c key value)
             (\<lambda>c2. case map_of (hc_ll (historyCache c2)) key of
                      None \<Rightarrow> Panics nil_dereference c2
                    | Some stored \<Rightarrow> drop_history c2 key stored)
      else Returns c)"

definition Add :: "Cache \<Rightarrow> string \<Rightarrow> Value \<Rightarrow> (Cache, Cache) outcome" where
  "Add c key value =
     (case map_of (ll c) key of
        Some old \<Rightarrow>
          (let c1 = c\<lparr>ll := (key, old) # remove1 (key, old) (ll c)\<rparr> in
           case value of
             None \<Rightarrow> Panics nil_dereference c1
           | Some v \<Rightarrow>
               (case old of
                  None \<Rightarrow> Panics nil_dereference c1
                | Some ov \<Rightarrow>
                    Returns (c1\<lparr>useBytes := useBytes c1 + (int64_len v - int64_len ov),
                                ll := (key, value) # remove1 (key, old) (ll c)\<rparr>)))
      | None \<Rightarrow>
          (let h = historyCache c in
           case map_of (hc_ll h) key of
             None \<Rightarrow>
               (let h1 = h\<lparr>hc_ll := hc_ll h @ [(key, value)],
                            hc_cnt := cnt_incr (hc_cnt h) key\<rparr>;
                    c1 = c\<lparr>historyCache := h1\<rparr> in
                case value of
                  None \<Rightarrow> Panics nil_dereference c1
                | Some v \<Rightarrow>
                    (let h2 = h1\<lparr>hc_useBytes := hc_useBytes h1 + (int64_len key + int64_len v)\<rparr>;
                         c2 = c\<lparr>historyCache := h2\<rparr> in
                     and_then
                       (if hc_maxBytes h2 \<noteq> 0 \<and> hc_maxBytes h2 <s hc_useBytes h2
                        then RemoveHistoryCacheOldest c2 else Returns c2)
                       (\<lambda>c3. promote c3 key value)))
           | Some old \<Rightarrow>
               (let h1 = h\<lparr>hc_cnt := cnt_incr (hc_cnt h) key,
                            hc_ll := remove1 (key, old) (hc_ll h) @ [(key, old)]\<rparr>;
                    c1 = c\<lparr>historyCache := h1\<rparr> in
                case value of
                  None \<Rightarrow> Panics nil_dereference c1
                | Some v \<Rightarrow>
                    (case old of
                       None \<Rightarrow> Panics nil_dereference c1
                     | Some ov \<Rightarrow>
                         promote
                           (c\<lparr>historyCache :=
                                h1\<lparr>hc_useBytes := hc_useBytes h1 + (int64_len v - int64_len ov),
                                   hc_ll := remove1 (key, old) (hc_ll h) @ [(key, value)]\<rparr>\<rparr>)
                           key value))))"

definition Len :: "Cache \<Rightarrow> int" where
  "Len c = int (length (ll c))"

section \<open>Sequences of calls\<close>

datatype call = AddCall string Value | GetCall string

definition step :: "Cache \<Rightarrow> call \<Rightarrow> (Cache, Cache) outcome" where
  "step c a =
     (case a of
        AddCall key value \<Rightarrow> Add c key value
      | GetCall key \<Rightarrow> and_then (Get c key) (\<lambda>r. Returns (snd r)))"

text \<open>A run stops at the first call that does not return.\<close>

fun run :: "Cache \<Rightarrow> call list \<Rightarrow> (Cache, Cache) outcome" where
  "run c [] = Returns c"
| "run c (a # as) = and_then (step c a) (\<lambda>c'. run c' as)"

text \<open>
  A caller that recovers from a panic goes on with the cache as the panic left it;
  \<open>None\<close> is a call that never returns.
\<close>

fun run_recovering :: "Cache \<Rightarrow> call list \<Rightarrow> Cache option" where
  "run_recovering c [] = Some c"
| "run_recovering c (a # as) =
     (case step c a of
        Returns c' \<Rightarrow> run_recovering c' as
      | Panics m s \<Rightarrow> run_recovering s as
      | Hangs \<Rightarrow> None)"

section \<open>The locked shard (type cache)\<close>

text \<open>
  A \<open>ByteView\<close> holds a byte slice; the zero \<open>ByteView\<close> holds the nil slice, which
  has no bytes. The shard builds its \<open>lru.Cache\<close> on the first \<open>add\<close>; \<open>lru\<close> is
  \<open>None\<close> until then. The mutex is taken and released around each call and plays no
  part in a sequential run. \<open>get\<close> asserts that the value found is a \<open>ByteView\<close>:
  on a nil value the assertion panics.
\<close>

datatype ByteView = ByteView (b: string)

definition zero_ByteView :: ByteView where
  "zero_ByteView = ByteView []"

record cache =
  lru :: "Cache option"
  cacheBytes :: int64

definition cache_add :: "cache \<Rightarrow> string \<Rightarrow> ByteView \<Rightarrow> (cache, cache) outcome" where
  "cache_add c key value =
     (let l = (case lru c of None \<Rightarrow> New (cacheBytes c) False 1 | Some l \<Rightarrow> l) in
      case Add l key (Some (b value)) of
        Returns l' \<Rightarrow> Returns (c\<lparr>lru := Some l'\<rparr>)
      | Panics m l' \<Rightarrow> Panics m (c\<lparr>lru := Some l'\<rparr>)
      | Hangs \<Rightarrow> Hangs)"

definition cache_get :: "cache \<Rightarrow> string \<Rightarrow> ((ByteView \<times> bool) \<times> cache, cache) outcome" where
  "cache_get c key =
     (case lru c of
        None \<Rightarrow> Returns ((zero_ByteView, False), c)
      | Some l \<Rightarrow>
          (case Get l key of
             Returns ((v, ok), l') \<Rightarrow>
               (if ok
                then (case v of
                        None \<Rightarrow>
                          Panics ''interface conversion: interface is nil, not geecache.ByteView''
                            (c\<lparr>lru := Some l'\<rparr>)
                      | Some bs \<Rightarrow> Returns ((ByteView bs, ok), c\<lparr>lru := Some l'\<rparr>))
                else Returns ((zero_ByteView, False), c\<lparr>lru := Some l'\<rparr>))
           | Panics m l' \<Rightarrow> Panics m (c\<lparr>lru := Some l'\<rparr>)
           | Hangs \<Rightarrow> Hangs))"

section \<open>The HTTP pool and the HTTP client\<close>

text \<open>
  \<open>ServeHTTP\<close> reads \<open>basePath\<close> of the pool and the path of the request, so the pool
  is its two string fields and a request is its method and path. The response writer
  is the status written (none before the first \<open>WriteHeader\<close>), the header map and the
  body written so far; a panic of the handler carries the writer as it is then.
  \<open>http.Error\<close> sets two headers, writes the status and prints the message with a
  newline. \<open>GetGroup\<close> and the group's \<open>Get\<close> are outside the sources: the registry is
  a parameter, a group being the function from a key to the view and the error its
  \<open>Get\<close> returns. Logging is left out.
\<close>

definition defaultBasePath :: string where
  "defaultBasePath = ''/_geecache/''"

record HTTPPool =
  self :: string
  basePath :: string

definition NewHTTPPool :: "string \<Rightarrow> HTTPPool" where
  "NewHTTPPool s = \<lparr> self = s, basePath = defaultBasePath \<rparr>"

record Request =
  Method :: string
  Path :: string

record ResponseWriter =
  status :: "nat option"
  header :: "string \<rightharpoonup> string"
  body :: string

definition new_ResponseWriter :: ResponseWriter where
  "new_ResponseWriter = \<lparr> status = None, header = Map.empty, body = [] \<rparr>"

definition WriteHeader :: "ResponseWriter \<Rightarrow> nat \<Rightarrow> ResponseWriter" where
  "WriteHeader w code = (if status w = None then w\<lparr>status := Some code\<rparr> else w)"

definition Write :: "ResponseWriter \<Rightarrow> string \<Rightarrow> ResponseWriter" where
  "Write w bs = (WriteHeader w 200)\<lparr>body := body w @ bs\<rparr>"

definition http_Error :: "ResponseWriter \<Rightarrow> string \<Rightarrow> nat \<Rightarrow> ResponseWriter" where
  "http_Error w msg code =
     Write (WriteHeader
              (w\<lparr>header := (header w)(''Content-Length'' := None,
                                        ''Content-Type'' \<mapsto> ''text/plain; charset=utf-8'',
                                        ''X-Content-Type-Options'' \<mapsto> ''nosniff'')\<rparr>) code)
           (msg @ [CHR 0x0A])"

definition HasPrefix :: "string \<Rightarrow> string \<Rightarrow> bool" where
  "HasPrefix s pre = (length pre \<le> length s \<and> take (length pre) s = pre)"

text \<open>\<open>strings.SplitN(s, "/", 2)\<close>: one part without a slash, else the text before and after the first.\<close>

definition SplitN2 :: "string \<Rightarrow> string list" where
  "SplitN2 s =
     (if CHR ''/'' \<in> set s
      then [takeWhile (\<lambda>c. c \<noteq> CHR ''/'') s, tl (dropWhile (\<lambda>c. c \<noteq> CHR ''/'') s)]
      else [s])"

type_synonym Group = "string \<Rightarrow> ByteView \<times> string option"

definition ServeHTTP ::
  "(string \<rightharpoonup> Group) \<Rightarrow> HTTPPool \<Rightarrow> ResponseWriter \<Rightarrow> Request
     \<Rightarrow> (ResponseWriter, ResponseWriter) outcome" where
  "ServeHTTP GetGroup p w r =
     (if \<not> HasPrefix (Path r) (basePath p)
      then Panics (''HTTPPool seving unexcepted path: '' @ Path r) w
      else
        (let parts = SplitN2 (drop (length (basePath p)) (Path r)) in
         if length parts \<noteq> 2 then Returns (http_Error w ''bad request'' 400)
         else
           (let groupName = parts ! 0; key = parts ! 1 in
            case GetGroup groupName of
              None \<Rightarrow> Returns (http_Error w (''no such group'' @ groupName) 404)
            | Some g \<Rightarrow>
                (case g key of (view, err) \<Rightarrow>
                   (let w1 = (case err of None \<Rightarrow> w | Some e \<Rightarrow> http_Error w e 500);
                        w2 = w1\<lparr>header := (header w1)(''Content-Type'' \<mapsto> ''application/octet-stream'')\<rparr>
                    in Returns (Write w2 (b view)))))))"

text \<open>
  \<open>url.QueryEscape\<close> of the Go library: letters, digits and \<open>- _ . ~\<close> are kept, a
  space becomes \<open>+\<close>, every other byte becomes \<open>%\<close> and two upper-case hex digits.
\<close>

definition upperhex :: string where
  "upperhex = ''0123456789ABCDEF''"

definition shouldEscape :: "char \<Rightarrow> bool" where
  "shouldEscape c =
     (let n = (of_char c :: nat) in
      \<not> ((97 \<le> n \<and> n \<le> 122) \<or> (65 \<le> n \<and> n \<le> 90) \<or> (48 \<le> n \<and> n \<le> 57)
         \<or> c \<in> set ''-_.~''))"

definition escape_byte :: "char \<Rightarrow> string" where
  "escape_byte c =
     (if shouldEscape c
      then (if c = CHR '' '' then ''+''
            else [CHR ''%'', upperhex ! ((of_char c :: nat) div 16),
                  upperhex ! ((of_char c :: nat) mod 16)])
      else [c])"

definition QueryEscape :: "string \<Rightarrow> string" where
  "QueryEscape s = concat (map escape_byte s)"

record httpGetter =
  baseURL :: string

text \<open>The URL that \<open>httpGetter.Get\<close> formats with \<open>"%s%s%s"\<close> and requests.\<close>

definition httpGetter_url :: "httpGetter \<Rightarrow> string \<Rightarrow> string \<Rightarrow> string" where
  "httpGetter_url h grp key = baseURL h @ QueryEscape grp @ QueryEscape key"

text \<open>
  The request itself is outside the sources: \<open>http_Get\<close> is a parameter that gives,
  for a URL, an error or the status code, the status text and the body read (itself
  an error or the bytes).
\<close>

definition httpGetter_Get ::
  "(string \<Rightarrow> string + (nat \<times> string \<times> (string + string))) \<Rightarrow> httpGetter \<Rightarrow> string \<Rightarrow> string
     \<Rightarrow> string + string" where
  "httpGetter_Get http_Get h grp key =
     (case http_Get (httpGetter_url h grp key) of
        Inl err \<Rightarrow> Inl err
      | Inr (code, status_text, read) \<Rightarrow>
          (if code \<noteq> 200 then Inl (''server returned: '' @ status_text)
           else (case read of
                   Inl err \<Rightarrow> Inl (''reading response body:'' @ err)
                 | Inr bytes \<Rightarrow> Inr bytes)))"

section \<open>Well-formed caches\<close>

text \<open>
  The keys of a queue, and the properties every cache built by \<open>New\<close> and changed by
  returning calls has: no key twice in a queue, no key in both queues, and a counter
  for exactly the keys of the history queue.
\<close>

definition keys_of :: "entry list \<Rightarrow> string set" where
  "keys_of xs = set (map fst xs)"

definition in_main :: "Cache \<Rightarrow> string \<Rightarrow> bool" where
  "in_main c key = (key \<in> keys_of (ll c))"

definition in_history :: "Cache \<Rightarrow> string \<Rightarrow> bool" where
  "in_history c key = (key \<in> keys_of (hc_ll (historyCache c)))"

definition has_counter :: "Cache \<Rightarrow> string \<Rightarrow> bool" where
  "has_counter c key = (hc_cnt (historyCache c) key \<noteq> None)"

definition wf_cache :: "Cache \<Rightarrow> bool" where
  "wf_cache c =
     (distinct (map fst (ll c)) \<and> distinct (map fst (hc_ll (historyCache c)))
      \<and> keys_of (ll c) \<inter> keys_of (hc_ll (historyCache c)) = {}
      \<and> dom (hc_cnt (historyCache c)) = keys_of (hc_ll (historyCache c)))"

text \<open>
  The part of well-formedness that concerns the history queue alone; it is kept by
  panicking calls too.
\<close>

definition history_ok :: "Cache \<Rightarrow> bool" where
  "history_ok c =
     (distinct (map fst (hc_ll (historyCache c)))
      \<and> dom (hc_cnt (historyCache c)) = keys_of (hc_ll (historyCache c)))"

text \<open>The state a call leaves, by returning it or by panicking in it.\<close>

definition leaves :: "('s, 's) outcome \<Rightarrow> 's \<Rightarrow> bool" where
  "leaves r s = (r = Returns s \<or> (\<exists>m. r = Panics m s))"

text \<open>What the eviction loop leaves alone: it only shortens the main list from the back.\<close>

definition loop_frame :: "Cache \<Rightarrow> Cache \<Rightarrow> bool" where
  "loop_frame c c' =
     (historyCache c' = historyCache c \<and> maxBytes c' = maxBytes c
      \<and> OnEvicted c' = OnEvicted c \<and> (\<exists>n. ll c' = take n (ll c)))"

definition within_budget :: "Cache \<Rightarrow> bool" where
  "within_budget c = (\<not> (maxBytes c \<noteq> 0 \<and> maxBytes c <s useBytes c))"

lemmas lru_defs =
  New_def cnt_get_def cnt_incr_def int64_len_def fire_def RemoveCacheOldest_def
  RemoveHistoryCacheOldest_def AddToCache_def drop_history_def Get_def promote_def Add_def
  step_def and_then_def nil_dereference_def Let_def word_sless_alt word_sle_eq


section \<open>Lists of entries\<close>

lemma filter_remove1_other: "\<not> P x \<Longrightarrow> filter P (remove1 x xs) = filter P xs"
  by (induction xs) auto

lemma map_of_None_keys: "(map_of xs k = None) = (k \<notin> keys_of xs)"
  by (simp add: keys_of_def map_of_eq_None_iff)

lemma map_of_Some_keys: "map_of xs k = Some v \<Longrightarrow> k \<in> keys_of xs"
  by (metis map_of_None_keys option.distinct(1))

lemma distinct_fst_remove1: "distinct (map fst xs) \<Longrightarrow> distinct (map fst (remove1 x xs))"
  by (auto simp: distinct_map intro: inj_on_diff)

lemma keys_of_remove1:
  "distinct (map fst xs) \<Longrightarrow> map_of xs k = Some v \<Longrightarrow> keys_of (remove1 (k, v) xs) = keys_of xs - {k}"
  unfolding keys_of_def
proof (induction xs)
  case Nil
  then show ?case by simp
next
  case (Cons x xs)
  then show ?case by (cases x) (auto simp: rev_image_eqI split: if_splits)
qed

lemma keys_of_take: "keys_of (take n xs) \<subseteq> keys_of xs"
  unfolding keys_of_def by (metis set_take_subset take_map)

lemma distinct_fst_take: "distinct (map fst xs) \<Longrightarrow> distinct (map fst (take n xs))"
  unfolding take_map[symmetric] by (rule distinct_take)

lemma moved_entry:
  assumes "distinct (map fst xs)" and "map_of xs k = Some v"
  shows "keys_of ((k, v') # remove1 (k, v) xs) = keys_of xs"
    and "keys_of (remove1 (k, v) xs @ [(k, v')]) = keys_of xs"
    and "distinct (map fst ((k, v') # remove1 (k, v) xs))"
    and "distinct (map fst (remove1 (k, v) xs @ [(k, v')]))"
proof -
  have r: "keys_of (remove1 (k, v) xs) = keys_of xs - {k}"
    using assms by (rule keys_of_remove1)
  have m: "k \<in> keys_of xs" using assms(2) by (rule map_of_Some_keys)
  have d: "distinct (map fst (remove1 (k, v) xs))"
    using assms(1) by (rule distinct_fst_remove1)
  show "keys_of ((k, v') # remove1 (k, v) xs) = keys_of xs"
    using r m by (auto simp: keys_of_def)
  show "keys_of (remove1 (k, v) xs @ [(k, v')]) = keys_of xs"
    using r m by (auto simp: keys_of_def)
  show "distinct (map fst ((k, v') # remove1 (k, v) xs))"
    using r d by (auto simp: keys_of_def)
  show "distinct (map fst (remove1 (k, v) xs @ [(k, v')]))"
    using r d by (auto simp: keys_of_def)
qed

section \<open>What the eviction loop and AddToCache leave alone\<close>

lemma leaves_simps [simp]:
  "leaves (Returns c) s = (s = c)" "leaves (Panics m c) s = (s = c)" "leaves Hangs s = False"
  by (auto simp: leaves_def)

lemma loop_frame_refl: "loop_frame c c"
  by (auto simp: loop_frame_def intro: exI[of _ "length (ll c)"])

lemma loop_frame_trans: "loop_frame c c1 \<Longrightarrow> loop_frame c1 c2 \<Longrightarrow> loop_frame c c2"
proof -
  assume a: "loop_frame c c1" and b: "loop_frame c1 c2"
  from a obtain m where m: "ll c1 = take m (ll c)" by (auto simp: loop_frame_def)
  from b obtain n where "ll c2 = take n (ll c1)" by (auto simp: loop_frame_def)
  with m have "ll c2 = take (min n m) (ll c)" by simp
  with a b show ?thesis unfolding loop_frame_def by metis
qed

lemma RemoveCacheOldest_frame:
  assumes "leaves (RemoveCacheOldest c) c'"
  shows "loop_frame c c'"
proof -
  have "\<exists>n. butlast (ll c) = take n (ll c)"
    by (metis butlast_conv_take)
  moreover have "\<exists>n. ll c = take n (ll c)"
    by (rule exI[of _ "length (ll c)"]) simp
  ultimately show ?thesis using assms
    by (auto simp: RemoveCacheOldest_def fire_def loop_frame_def Let_def
             split: prod.splits option.splits if_splits)
qed

lemma evict_loop_frame:
  assumes "evict_loop c = Some r"
  shows "leaves r c' \<longrightarrow> loop_frame c c'"
proof (rule evict_loop.raw_induct[where P = "\<lambda>c r. leaves r c' \<longrightarrow> loop_frame c c'", OF _ assms])
  fix loop :: "Cache \<Rightarrow> (Cache, Cache) outcome option" and c r
  assume ih: "\<And>x y. loop x = Some y \<Longrightarrow> leaves y c' \<longrightarrow> loop_frame x c'"
    and eq: "(if maxBytes c \<noteq> 0 \<and> maxBytes c <s useBytes c
              then case RemoveCacheOldest c of
                     Returns c' \<Rightarrow> loop c'
                   | Panics m s \<Rightarrow> Some (Panics m s)
                   | Hangs \<Rightarrow> Some Hangs
              else Some (Returns c)) = Some r"
  show "leaves r c' \<longrightarrow> loop_frame c c'"
  proof (cases "maxBytes c \<noteq> 0 \<and> maxBytes c <s useBytes c")
    case False
    with eq have "r = Returns c" by auto
    then show ?thesis by (simp add: loop_frame_refl)
  next
    case True
    show ?thesis
    proof (cases "RemoveCacheOldest c")
      case (Returns c1)
      with True eq have "loop c1 = Some r" by simp
      then have "leaves r c' \<longrightarrow> loop_frame c1 c'" by (rule ih)
      moreover have "loop_frame c c1"
        using Returns by (intro RemoveCacheOldest_frame) simp
      ultimately show ?thesis by (auto intro: loop_frame_trans)
    next
      case (Panics m s)
      with True eq have "r = Panics m s" by simp
      moreover have "loop_frame c s"
        using Panics by (intro RemoveCacheOldest_frame) simp
      ultimately show ?thesis by simp
    next
      case Hangs
      with True eq have "r = Hangs" by simp
      then show ?thesis by simp
    qed
  qed
qed

lemma AddToCache_frame:
  assumes "leaves (AddToCache c key value) c2"
  shows "historyCache c2 = historyCache c \<and> maxBytes c2 = maxBytes c
          \<and> (\<exists>n. ll c2 = take n ((key, value) # ll c))"
proof (cases "value")
  case None
  with assms have "c2 = c\<lparr>ll := (key, value) # ll c\<rparr>"
    by (simp add: AddToCache_def)
  then show ?thesis by (auto intro: exI[of _ "Suc (length (ll c))"])
next
  case (Some v)
  let ?c1 = "c\<lparr>ll := (key, value) # ll c,
               useBytes := useBytes c + (int64_len key + int64_len v)\<rparr>"
  from assms Some obtain r where r: "evict_loop ?c1 = Some r" "leaves r c2"
    by (auto simp: AddToCache_def Let_def split: option.splits)
  from evict_loop_frame[OF r(1), of c2] r(2) have "loop_frame ?c1 c2" by simp
  then show ?thesis by (auto simp: loop_frame_def)
qed

lemma wf_New: "wf_cache (New m e kk)"
  by (simp add: wf_cache_def New_def keys_of_def)

section \<open>Every returning call keeps a cache well formed\<close>

lemma drop_history_Returns:
  assumes "drop_history c key stored = Returns c'"
  shows "ll c' = ll c \<and> hc_ll (historyCache c') = remove1 (key, stored) (hc_ll (historyCache c))
         \<and> hc_cnt (historyCache c') = (hc_cnt (historyCache c))(key := None)"
  using assms by (auto simp: drop_history_def Let_def split: option.splits)

lemma promote_wf:
  assumes wf: "wf_cache c" and nm: "key \<notin> keys_of (ll c)"
    and p: "promote c key value = Returns c'"
  shows "wf_cache c'"
proof (cases "hc_k (historyCache c) \<le>s cnt_get (hc_cnt (historyCache c)) key")
  case False
  with p have "c' = c" by (simp add: promote_def)
  with wf show ?thesis by simp
next
  case True
  with p obtain c2 where a: "AddToCache c key value = Returns c2"
    by (cases "AddToCache c key value") (auto simp: promote_def and_then_def)
  then have "leaves (AddToCache c key value) c2" by simp
  from AddToCache_frame[OF this] obtain n where
    h2: "historyCache c2 = historyCache c" and l2: "ll c2 = take n ((key, value) # ll c)"
    by blast
  let ?h = "historyCache c"
  from p True a h2 obtain old where old: "map_of (hc_ll ?h) key = Some old"
    and d: "drop_history c2 key old = Returns c'"
    by (auto simp: promote_def and_then_def split: option.splits)
  from drop_history_Returns[OF d] h2 l2 have
    l': "ll c' = take n ((key, value) # ll c)"
    and hl': "hc_ll (historyCache c') = remove1 (key, old) (hc_ll ?h)"
    and cn': "hc_cnt (historyCache c') = (hc_cnt ?h)(key := None)"
    by simp_all
  have d1: "distinct (map fst (ll c'))"
    using wf nm by (simp add: keys_of_def l' distinct_fst_take wf_cache_def)
  have d2: "distinct (map fst (hc_ll (historyCache c')))"
    using wf by (simp add: hl' distinct_fst_remove1 wf_cache_def)
  have k2: "keys_of (hc_ll (historyCache c')) = keys_of (hc_ll ?h) - {key}"
    using wf old by (simp add: hl' keys_of_remove1 wf_cache_def)
  have "keys_of (ll c') \<subseteq> insert key (keys_of (ll c))"
    using keys_of_take[of n "(key, value) # ll c"]
    by (simp add: l' keys_of_def)
  with k2 wf have dj: "keys_of (ll c') \<inter> keys_of (hc_ll (historyCache c')) = {}"
    by (auto simp: wf_cache_def)
  have "dom (hc_cnt (historyCache c')) = dom (hc_cnt ?h) - {key}"
    by (simp add: cn')
  with k2 wf have "dom (hc_cnt (historyCache c')) = keys_of (hc_ll (historyCache c'))"
    by (simp add: wf_cache_def)
  with d1 d2 dj show ?thesis by (simp add: wf_cache_def)
qed

lemma RemoveHistoryCacheOldest_wf:
  assumes "wf_cache c" and "RemoveHistoryCacheOldest c = Returns c'"
  shows "wf_cache c' \<and> ll c' = ll c"
proof (cases "hc_ll (historyCache c)")
  case Nil
  with assms show ?thesis by (simp add: RemoveHistoryCacheOldest_def Let_def)
next
  case (Cons e rest)
  obtain k v where e: "e = (k, v)" by (cases e)
  from assms Cons e have "distinct (map fst (ll c))" "k \<notin> keys_of rest" "distinct (map fst rest)"
    "keys_of (ll c) \<inter> keys_of rest = {}" "dom (hc_cnt (historyCache c)) = insert k (keys_of rest)"
    by (auto simp: wf_cache_def keys_of_def)
  then show ?thesis using Cons e assms(2)
    by (auto simp: RemoveHistoryCacheOldest_def Let_def fire_def wf_cache_def
             split: option.splits if_splits)
qed

lemma Get_wf:
  assumes wf: "wf_cache c" and g: "Get c key = Returns (r, c')"
  shows "wf_cache c'"
proof (cases "map_of (ll c) key")
  case (Some v)
  with g have c': "c' = c\<lparr>ll := (key, v) # remove1 (key, v) (ll c)\<rparr>"
    by (simp add: Get_def)
  from wf have "distinct (map fst (ll c))" by (simp add: wf_cache_def)
  from moved_entry(1,3)[OF this Some, of v] wf show ?thesis
    by (simp add: c' wf_cache_def)
next
  case None
  show ?thesis
  proof (cases "map_of (hc_ll (historyCache c)) key")
    case n2: None
    with None g have "c' = c" by (simp add: Get_def)
    with wf show ?thesis by simp
  next
    case (Some v)
    let ?h = "historyCache c"
    from g None Some have c': "c' = c\<lparr>historyCache :=
         ?h\<lparr>hc_cnt := cnt_incr (hc_cnt ?h) key,
             hc_ll := remove1 (key, v) (hc_ll ?h) @ [(key, v)]\<rparr>\<rparr>"
      by (auto simp: Get_def Let_def AddToCache_def and_then_def split: if_splits)
    from wf have d: "distinct (map fst (hc_ll ?h))" by (simp add: wf_cache_def)
    have "key \<in> keys_of (hc_ll ?h)" using Some by (rule map_of_Some_keys)
    then have "dom (cnt_incr (hc_cnt ?h) key) = keys_of (hc_ll ?h)"
      using wf by (auto simp: cnt_incr_def wf_cache_def)
    with moved_entry(2,4)[OF d Some, of v] wf show ?thesis
      by (simp add: c' wf_cache_def)
  qed
qed

lemma Add_miss:
  assumes "map_of (ll c) key = None" and "Add c key value = Returns c'"
  shows "\<exists>c2. promote c2 key value = Returns c' \<and> ll c2 = ll c
           \<and> (wf_cache c \<longrightarrow> wf_cache c2)"
proof -
  let ?h = "historyCache c"
  from assms have nm: "key \<notin> keys_of (ll c)" by (simp add: map_of_None_keys)
  from assms obtain v where v: "value = Some v"
    by (cases "value") (auto simp: Add_def Let_def split: option.splits)
  show ?thesis
  proof (cases "map_of (hc_ll ?h) key")
    case None
    then have nh: "key \<notin> keys_of (hc_ll ?h)" by (simp add: map_of_None_keys)
    define c1 where "c1 = c\<lparr>historyCache := ?h\<lparr>hc_ll := hc_ll ?h @ [(key, value)],
                              hc_cnt := cnt_incr (hc_cnt ?h) key,
                              hc_useBytes := hc_useBytes ?h + (int64_len key + int64_len v)\<rparr>\<rparr>"
    define r where "r = (if hc_maxBytes (historyCache c1) \<noteq> 0
                              \<and> hc_maxBytes (historyCache c1) <s hc_useBytes (historyCache c1)
                           then RemoveHistoryCacheOldest c1 else Returns c1)"
    from assms None v have "and_then r (\<lambda>c3. promote c3 key value) = Returns c'"
      by (auto simp: Add_def Let_def c1_def r_def)
    then obtain c2 where c2: "r = Returns c2" and p: "promote c2 key value = Returns c'"
      by (cases r) (auto simp: and_then_def)
    have wf1: "wf_cache c \<Longrightarrow> wf_cache c1"
      using nm nh by (auto simp: c1_def wf_cache_def keys_of_def cnt_incr_def)
    have l1: "ll c1 = ll c" by (simp add: c1_def)
    have "ll c2 = ll c1"
      using c2 by (auto simp: r_def RemoveHistoryCacheOldest_def Let_def fire_def
                        split: if_splits list.splits option.splits)
    moreover have "wf_cache c \<Longrightarrow> wf_cache c2"
      using c2 wf1 RemoveHistoryCacheOldest_wf[of c1 c2] by (auto simp: r_def split: if_splits)
    ultimately show ?thesis using p l1 by auto
  next
    case (Some old)
    from assms Some v obtain ov where ov: "old = Some ov"
      by (cases old) (auto simp: Add_def Let_def)
    define c1 where "c1 = c\<lparr>historyCache := ?h\<lparr>hc_cnt := cnt_incr (hc_cnt ?h) key,
                              hc_useBytes := hc_useBytes ?h + (int64_len v - int64_len ov),
                              hc_ll := remove1 (key, old) (hc_ll ?h) @ [(key, value)]\<rparr>\<rparr>"
    from assms Some v ov have p: "promote c1 key value = Returns c'"
      by (simp add: Add_def Let_def c1_def)
    have "wf_cache c1" if wf: "wf_cache c"
    proof -
      from wf have d: "distinct (map fst (hc_ll ?h))" by (simp add: wf_cache_def)
      have "key \<in> keys_of (hc_ll ?h)" using Some by (rule map_of_Some_keys)
      then have "dom (cnt_incr (hc_cnt ?h) key) = keys_of (hc_ll ?h)"
        using wf by (auto simp: cnt_incr_def wf_cache_def)
      with moved_entry(2,4)[OF d Some, of "value"] wf show ?thesis
        by (simp add: c1_def wf_cache_def)
    qed
    with p show ?thesis by (intro exI[of _ c1]) (simp add: c1_def)
  qed
qed

lemma Add_wf:
  assumes wf: "wf_cache c" and a: "Add c key value = Returns c'"
  shows "wf_cache c'"
proof (cases "map_of (ll c) key")
  case (Some old)
  with a have c': "ll c' = (key, value) # remove1 (key, old) (ll c)"
    "historyCache c' = historyCache c"
    by (auto simp: Add_def Let_def split: option.splits)
  from wf have "distinct (map fst (ll c))" by (simp add: wf_cache_def)
  from moved_entry(1,3)[OF this Some, of "value"] wf show ?thesis
    by (simp add: c' wf_cache_def)
next
  case None
  from Add_miss[OF None a] wf obtain c2 where
    "promote c2 key value = Returns c'" "ll c2 = ll c" "wf_cache c2"
    by blast
  moreover from None have "key \<notin> keys_of (ll c)" by (simp add: map_of_None_keys)
  ultimately show ?thesis by (auto intro: promote_wf)
qed

lemma step_wf: "wf_cache c \<Longrightarrow> step c a = Returns c' \<Longrightarrow> wf_cache c'"
proof (cases a)
  case (AddCall key v)
  assume "wf_cache c" "step c a = Returns c'"
  with AddCall show ?thesis by (auto simp: step_def intro: Add_wf)
next
  case (GetCall key)
  assume w: "wf_cache c" and s: "step c a = Returns c'"
  with GetCall obtain r where "Get c key = Returns (r, c')"
    by (cases "Get c key") (auto simp: step_def and_then_def)
  with w show ?thesis by (rule Get_wf)
qed

lemma run_wf: "wf_cache c \<Longrightarrow> run c calls = Returns c' \<Longrightarrow> wf_cache c'"
proof (induction calls arbitrary: c)
  case Nil
  then show ?case by simp
next
  case (Cons a calls)
  from Cons.prems(2) obtain c1 where c1: "step c a = Returns c1" "run c1 calls = Returns c'"
    by (cases "step c a") (auto simp: and_then_def)
  from Cons.prems(1) c1(1) have "wf_cache c1" by (rule step_wf)
  then show ?case using c1(2) by (rule Cons.IH)
qed

section \<open>Every call keeps the history queue and its counters together\<close>

text \<open>
  The property of the history queue holds in the state a panic leaves as well, so it
  holds for a caller that recovers from panics and goes on.
\<close>

lemma map_of_tl:
  "distinct (map fst xs) \<Longrightarrow> map_of (tl xs) k = None \<or> map_of (tl xs) k = map_of xs k"
  by (cases xs) (auto simp: map_of_eq_None_iff rev_image_eqI)

lemma map_of_moved:
  fixes xs :: "entry list"
  assumes "distinct (map fst xs)" and "map_of xs k = Some v"
  shows "map_of (remove1 (k, v) xs @ [(k, v')]) k = Some v'"
proof -
  have "keys_of (remove1 (k, v) xs) = keys_of xs - {k}"
    using assms by (rule keys_of_remove1)
  then have "map_of (remove1 (k, v) xs) k = None"
    by (simp add: map_of_None_keys)
  then show ?thesis by (simp add: map_add_def map_of_append)
qed

lemma RemoveHistoryCacheOldest_hist:
  assumes "history_ok c" and "leaves (RemoveHistoryCacheOldest c) c'"
  shows "history_ok c'
         \<and> (hc_ll (historyCache c') = hc_ll (historyCache c)
            \<or> hc_ll (historyCache c') = tl (hc_ll (historyCache c)))"
proof (cases "hc_ll (historyCache c)")
  case Nil
  with assms show ?thesis by (simp add: RemoveHistoryCacheOldest_def Let_def)
next
  case (Cons e rest)
  obtain k v where e: "e = (k, v)" by (cases e)
  from assms(1) Cons e have "k \<notin> keys_of rest" "distinct (map fst rest)"
    "dom (hc_cnt (historyCache c)) = insert k (keys_of rest)"
    by (auto simp: history_ok_def keys_of_def)
  then show ?thesis using Cons e assms(2)
    by (auto simp: RemoveHistoryCacheOldest_def Let_def fire_def history_ok_def
             split: option.splits if_splits)
qed

lemma promote_hist:
  assumes ok: "history_ok c"
    and st: "map_of (hc_ll (historyCache c)) key = None
             \<or> map_of (hc_ll (historyCache c)) key = Some (Some v)"
    and p: "leaves (promote c key (Some v)) c'"
  shows "history_ok c'"
proof (cases "hc_k (historyCache c) \<le>s cnt_get (hc_cnt (historyCache c)) key")
  case False
  with p have "c' = c" by (simp add: promote_def)
  with ok show ?thesis by simp
next
  case True
  let ?h = "historyCache c"
  show ?thesis
  proof (cases "AddToCache c key (Some v)")
    case Hangs
    with True p show ?thesis by (simp add: promote_def and_then_def)
  next
    case (Panics m s)
    with True p have "c' = s" by (simp add: promote_def and_then_def)
    moreover from Panics have "leaves (AddToCache c key (Some v)) s" by simp
    from AddToCache_frame[OF this] have "historyCache s = ?h" by simp
    ultimately show ?thesis using ok by (simp add: history_ok_def)
  next
    case (Returns c2)
    then have "leaves (AddToCache c key (Some v)) c2" by simp
    from AddToCache_frame[OF this] have h2: "historyCache c2 = ?h" by simp
    from st show ?thesis
    proof
      assume "map_of (hc_ll ?h) key = None"
      with True p Returns h2 have "c' = c2" by (simp add: promote_def and_then_def)
      with ok h2 show ?thesis by (simp add: history_ok_def)
    next
      assume s: "map_of (hc_ll ?h) key = Some (Some v)"
      with True p Returns h2 have
        "hc_ll (historyCache c') = remove1 (key, Some v) (hc_ll ?h)"
        "hc_cnt (historyCache c') = (hc_cnt ?h)(key := None)"
        by (simp_all add: promote_def and_then_def drop_history_def Let_def)
      moreover from ok have d: "distinct (map fst (hc_ll ?h))" by (simp add: history_ok_def)
      ultimately show ?thesis using ok keys_of_remove1[OF d s] distinct_fst_remove1[OF d]
        by (simp add: history_ok_def)
    qed
  qed
qed

lemma Get_hist:
  assumes ok: "history_ok c"
    and g: "Get c key = Returns (r, c') \<or> Get c key = Panics m c'"
  shows "history_ok c'"
proof (cases "map_of (ll c) key")
  case (Some v)
  with g have "historyCache c' = historyCache c" by (auto simp: Get_def)
  with ok show ?thesis by (simp add: history_ok_def)
next
  case None
  let ?h = "historyCache c"
  show ?thesis
  proof (cases "map_of (hc_ll ?h) key")
    case n2: None
    with None g have "c' = c" by (simp add: Get_def)
    with ok show ?thesis by simp
  next
    case (Some v)
    from ok have d: "distinct (map fst (hc_ll ?h))" by (simp add: history_ok_def)
    have "key \<in> keys_of (hc_ll ?h)" using Some by (rule map_of_Some_keys)
    then have dm: "dom (cnt_incr (hc_cnt ?h) key) = keys_of (hc_ll ?h)"
      using ok by (auto simp: cnt_incr_def history_ok_def)
    from g None Some have
      "hc_cnt (historyCache c') = cnt_incr (hc_cnt ?h) key
       \<and> (hc_ll (historyCache c') = hc_ll ?h
          \<or> hc_ll (historyCache c') = remove1 (key, v) (hc_ll ?h) @ [(key, v)])"
      by (auto simp: Get_def Let_def AddToCache_def and_then_def split: if_splits)
    with dm d moved_entry(2,4)[OF d Some, of v] show ?thesis
      by (auto simp: history_ok_def)
  qed
qed

lemma Add_hist:
  assumes ok: "history_ok c" and a: "leaves (Add c key value) c'"
  shows "history_ok c'"
proof (cases "map_of (ll c) key")
  case (Some old)
  with a have "historyCache c' = historyCache c"
    by (auto simp: Add_def Let_def split: option.splits)
  with ok show ?thesis by (simp add: history_ok_def)
next
  case None
  let ?h = "historyCache c"
  from ok have d: "distinct (map fst (hc_ll ?h))" by (simp add: history_ok_def)
  show ?thesis
  proof (cases "map_of (hc_ll ?h) key")
    case n2: None
    then have nh: "key \<notin> keys_of (hc_ll ?h)" by (simp add: map_of_None_keys)
    define h1 where "h1 = ?h\<lparr>hc_ll := hc_ll ?h @ [(key, value)],
                             hc_cnt := cnt_incr (hc_cnt ?h) key\<rparr>"
    have ok1: "history_ok (x\<lparr>historyCache := h1\<lparr>hc_useBytes := u\<rparr>\<rparr>)" for x u
      using ok nh by (auto simp: h1_def history_ok_def keys_of_def cnt_incr_def)
    have ok1': "history_ok (c\<lparr>historyCache := h1\<rparr>)"
      using ok nh by (auto simp: h1_def history_ok_def keys_of_def cnt_incr_def)
    show ?thesis
    proof (cases "value")
      case vn: None
      with a None n2 have "c' = c\<lparr>historyCache := h1\<rparr>"
        by (simp add: Add_def Let_def h1_def)
      with ok1' show ?thesis by simp
    next
      case (Some v)
      define c2 where "c2 = c\<lparr>historyCache :=
                               h1\<lparr>hc_useBytes := hc_useBytes h1 + (int64_len key + int64_len v)\<rparr>\<rparr>"
      define r where "r = (if hc_maxBytes (historyCache c2) \<noteq> 0
                              \<and> hc_maxBytes (historyCache c2) <s hc_useBytes (historyCache c2)
                           then RemoveHistoryCacheOldest c2 else Returns c2)"
      have ok2: "history_ok c2" unfolding c2_def by (rule ok1)
      have m2: "map_of (hc_ll (historyCache c2)) key = Some (Some v)"
        using n2 Some by (simp add: c2_def h1_def map_add_def map_of_append)
      have d2: "distinct (map fst (hc_ll (historyCache c2)))"
        using ok2 by (simp add: history_ok_def)
      from a None n2 Some have l: "leaves (and_then r (\<lambda>c3. promote c3 key (Some v))) c'"
        by (auto simp: Add_def Let_def h1_def c2_def r_def split: if_splits)
      have rl: "history_ok x
                \<and> (map_of (hc_ll (historyCache x)) key = None
                   \<or> map_of (hc_ll (historyCache x)) key = Some (Some v))"
        if "leaves r x" for x
      proof (cases "hc_maxBytes (historyCache c2) \<noteq> 0
                    \<and> hc_maxBytes (historyCache c2) <s hc_useBytes (historyCache c2)")
        case False
        with that have "x = c2" by (simp add: r_def)
        with ok2 m2 show ?thesis by simp
      next
        case True
        with that have "leaves (RemoveHistoryCacheOldest c2) x" by (simp add: r_def)
        from RemoveHistoryCacheOldest_hist[OF ok2 this] m2 map_of_tl[OF d2, of key]
        show ?thesis by auto
      qed
      show ?thesis
      proof (cases r)
        case Hangs
        with l show ?thesis by (simp add: and_then_def)
      next
        case (Panics m s)
        with l have "c' = s" by (simp add: and_then_def)
        with rl[of s] Panics show ?thesis by simp
      next
        case (Returns c3)
        with l have "leaves (promote c3 key (Some v)) c'" by (simp add: and_then_def)
        with rl[of c3] Returns show ?thesis by (auto intro: promote_hist)
      qed
    qed
  next
    case (Some old)
    have "key \<in> keys_of (hc_ll ?h)" using Some by (rule map_of_Some_keys)
    then have dm: "dom (cnt_incr (hc_cnt ?h) key) = keys_of (hc_ll ?h)"
      using ok by (auto simp: cnt_incr_def history_ok_def)
    have okm: "history_ok (c\<lparr>historyCache := ?h\<lparr>hc_cnt := cnt_incr (hc_cnt ?h) key,
                 hc_ll := remove1 (key, old) (hc_ll ?h) @ [(key, x)]\<rparr>\<rparr>)" for x
      using dm moved_entry(2,4)[OF d Some, of x] by (simp add: history_ok_def)
    show ?thesis
    proof (cases "\<exists>v ov. value = Some v \<and> old = Some ov")
      case False
      with a None Some have "c' = c\<lparr>historyCache := ?h\<lparr>hc_cnt := cnt_incr (hc_cnt ?h) key,
                 hc_ll := remove1 (key, old) (hc_ll ?h) @ [(key, old)]\<rparr>\<rparr>"
        by (auto simp: Add_def Let_def split: option.splits)
      with okm show ?thesis by simp
    next
      case True
      then obtain v ov where v: "value = Some v" "old = Some ov" by blast
      define c1 where "c1 = c\<lparr>historyCache := ?h\<lparr>hc_cnt := cnt_incr (hc_cnt ?h) key,
                 hc_useBytes := hc_useBytes ?h + (int64_len v - int64_len ov),
                 hc_ll := remove1 (key, old) (hc_ll ?h) @ [(key, value)]\<rparr>\<rparr>"
      from a None Some v have "leaves (promote c1 key (Some v)) c'"
        by (simp add: Add_def Let_def c1_def)
      moreover have "history_ok c1"
        using okm[of "value"] by (simp add: c1_def history_ok_def)
      moreover have "map_of (hc_ll (historyCache c1)) key = Some (Some v)"
        using map_of_moved[OF d Some, of "value"] v by (simp add: c1_def)
      ultimately show ?thesis by (auto intro: promote_hist)
    qed
  qed
qed

lemma step_hist:
  assumes "history_ok c" and "leaves (step c a) c'"
  shows "history_ok c'"
proof (cases a)
  case (AddCall key v)
  with assms show ?thesis by (auto simp: step_def intro: Add_hist)
next
  case (GetCall key)
  with assms(2) have "(\<exists>r. Get c key = Returns (r, c')) \<or> (\<exists>m. Get c key = Panics m c')"
    by (cases "Get c key") (auto simp: step_def and_then_def)
  with assms(1) show ?thesis by (auto intro: Get_hist)
qed

lemma run_recovering_hist:
  "history_ok c \<Longrightarrow> run_recovering c calls = Some c' \<Longrightarrow> history_ok c'"
proof (induction calls arbitrary: c)
  case Nil
  then show ?case by simp
next
  case (Cons a calls)
  from Cons.prems(2) obtain c1 where c1: "leaves (step c a) c1" "run_recovering c1 calls = Some c'"
    by (cases "step c a") auto
  from Cons.prems(1) c1(1) have "history_ok c1" by (rule step_hist)
  then show ?case using c1(2) by (rule Cons.IH)
qed

lemma counters_after_recovery:
  assumes "run_recovering (New maxB onEvicted kk) calls = Some c"
  shows "has_counter c key = in_history c key"
proof -
  have "history_ok (New maxB onEvicted kk)"
    by (simp add: history_ok_def New_def keys_of_def)
  then have "history_ok c" using assms by (rule run_recovering_hist)
  then show ?thesis by (auto simp: history_ok_def has_counter_def in_history_def)
qed

section \<open>The budget after AddToCache\<close>

lemma evict_loop_budget:
  assumes "evict_loop c = Some r"
  shows "r = Returns c' \<longrightarrow> within_budget c'"
proof (rule evict_loop.raw_induct[where P = "\<lambda>c r. r = Returns c' \<longrightarrow> within_budget c'", OF _ assms])
  fix loop :: "Cache \<Rightarrow> (Cache, Cache) outcome option" and c r
  assume ih: "\<And>x y. loop x = Some y \<Longrightarrow> y = Returns c' \<longrightarrow> within_budget c'"
    and eq: "(if maxBytes c \<noteq> 0 \<and> maxBytes c <s useBytes c
              then case RemoveCacheOldest c of
                     Returns c' \<Rightarrow> loop c'
                   | Panics m s \<Rightarrow> Some (Panics m s)
                   | Hangs \<Rightarrow> Some Hangs
              else Some (Returns c)) = Some r"
  show "r = Returns c' \<longrightarrow> within_budget c'"
  proof (cases "maxBytes c \<noteq> 0 \<and> maxBytes c <s useBytes c")
    case False
    with eq have "r = Returns c" by auto
    with False show ?thesis by (auto simp: within_budget_def)
  next
    case True
    with eq ih show ?thesis
      by (cases "RemoveCacheOldest c") auto
  qed
qed

lemma AddToCache_budget:
  "AddToCache c key value = Returns c' \<Longrightarrow> within_budget c'"
  by (auto simp: AddToCache_def Let_def split: option.splits dest: evict_loop_budget)

section \<open>The scenarios of the tests\<close>

text \<open>
  C7: on a fresh cache with \<open>k = 1\<close> and budget 0 (unlimited),
  \<open>Add("key1", "123")\<close> followed by \<open>Get("key1")\<close> returns \<open>("123", true)\<close>, and
  \<open>Get("key2")\<close> on the same cache returns \<open>found = false\<close>.
\<close>

theorem round_trip_scenario:
  "\<exists>c1 c2 c3 v.
     Add (New 0 False 1) ''key1'' (Some ''123'') = Returns c1
     \<and> Get c1 ''key1'' = Returns ((Some ''123'', True), c2)
     \<and> Get c2 ''key2'' = Returns ((v, False), c3)"
  by (simp add: lru_defs evict_loop.simps)

text \<open>
  C5: with \<open>maxBytes = 10\<close>, \<open>k = 1\<close> and a callback installed on a fresh cache, adding
  \<open>"key1" -> "123456"\<close>, \<open>"k2" -> "k2"\<close>, \<open>"k3" -> "k3"\<close>, \<open>"k4" -> "k4"\<close> in that
  order invokes the callback exactly twice, with the key \<open>"key1"\<close> and then with the
  key \<open>"k2"\<close>.
\<close>

theorem callback_scenario:
  "\<exists>c. run (New 10 True 1)
          [AddCall ''key1'' (Some ''123456''), AddCall ''k2'' (Some ''k2''),
           AddCall ''k3'' (Some ''k3''), AddCall ''k4'' (Some ''k4'')] = Returns c
       \<and> map fst (evicted c) = [''key1'', ''k2'']"
  by (simp add: lru_defs evict_loop.simps)

section \<open>Byte budgets\<close>

text \<open>
  C1 asks that after every call the bytes used by a queue stay within its nonzero
  budget. The code leaves both queues over budget: \<open>Add\<close> on a key of the main queue
  changes \<open>useBytes\<close> and runs no eviction, and \<open>Add\<close> of a new key evicts at most one
  entry of the history queue; only \<open>AddToCache\<close> restores the budget
  (\<open>AddToCache_budget\<close>). With budget 10: two calls leave 12 bytes in the main
  queue (\<open>k = 1\<close>), and two calls leave 12 bytes in the history queue (\<open>k = 3\<close>).
\<close>

theorem budget_exceeded:
  "(\<exists>c. run (New 10 False 1) [AddCall ''a'' (Some ''1''), AddCall ''a'' (Some ''12345678901'')]
          = Returns c
        \<and> maxBytes c = 10 \<and> useBytes c = 12)
   \<and> (\<exists>c. run (New 10 False 3) [AddCall ''a'' (Some ''1''), AddCall ''b'' (Some ''12345678901'')]
          = Returns c
        \<and> hc_maxBytes (historyCache c) = 10 \<and> hc_useBytes (historyCache c) = 12)"
  by (simp add: lru_defs evict_loop.simps)

section \<open>Promotion in Get\<close>

text \<open>
  C2 asks that with \<open>k = 2\<close> and no budget, \<open>Add("x", "v")\<close> and then \<open>Get("x")\<close> leave
  \<open>"x"\<close> in the main queue with the value \<open>"v"\<close>. In the code \<open>Get\<close> hands its own
  result variable, still nil, to \<open>AddToCache\<close>, which calls \<open>Len\<close> on it: the call
  panics.
\<close>

theorem promotion_in_Get_panics:
  "\<exists>c1 s. Add (New 0 False 2) ''x'' (Some ''v'') = Returns c1
     \<and> Get c1 ''x'' = Panics ''invalid memory address or nil pointer dereference'' s"
  by (simp add: lru_defs evict_loop.simps)

section \<open>A key in both queues\<close>

text \<open>
  In a run of calls that all return, no key is in both queues.
\<close>

lemma returning_runs_disjoint:
  assumes "run (New maxB onEvicted kk) calls = Returns c"
  shows "\<not> (in_main c key \<and> in_history c key)"
proof -
  have "wf_cache c" using wf_New assms by (rule run_wf)
  then show ?thesis by (auto simp: wf_cache_def in_main_def in_history_def)
qed

text \<open>
  C6 asks that after each call no key is in the main queue and in the history queue
  at once. The panic of \<open>Get\<close> at the threshold comes after \<open>AddToCache\<close> has put the
  key in the main queue and before \<open>Get\<close> takes it out of the history queue. With
  \<open>k = 2\<close>: after \<open>Add("x", "v")\<close> the call \<open>Get("x")\<close> panics and leaves \<open>"x"\<close> in
  both queues, and a caller that recovers finds it there after the completed call
  \<open>Get("y")\<close>.
\<close>

theorem key_in_both_queues:
  "Add (New 0 False 2) ''x'' (Some ''v'')
     = Returns (New 0 False 2
                 \<lparr>historyCache := \<lparr> hc_k = 2, hc_maxBytes = 0, hc_useBytes = 2,
                                     hc_ll = [(''x'', Some ''v'')], hc_cnt = [''x'' \<mapsto> 1] \<rparr>\<rparr>)
   \<and> Get (New 0 False 2
            \<lparr>historyCache := \<lparr> hc_k = 2, hc_maxBytes = 0, hc_useBytes = 2,
                                hc_ll = [(''x'', Some ''v'')], hc_cnt = [''x'' \<mapsto> 1] \<rparr>\<rparr>) ''x''
     = Panics ''invalid memory address or nil pointer dereference''
         (New 0 False 2
            \<lparr>ll := [(''x'', None)],
             historyCache := \<lparr> hc_k = 2, hc_maxBytes = 0, hc_useBytes = 2,
                                hc_ll = [(''x'', Some ''v'')], hc_cnt = [''x'' \<mapsto> 2] \<rparr>\<rparr>)
   \<and> run_recovering (New 0 False 2)
         [AddCall ''x'' (Some ''v''), GetCall ''x'', GetCall ''y'']
     = Some (New 0 False 2
            \<lparr>ll := [(''x'', None)],
             historyCache := \<lparr> hc_k = 2, hc_maxBytes = 0, hc_useBytes = 2,
                                hc_ll = [(''x'', Some ''v'')], hc_cnt = [''x'' \<mapsto> 2] \<rparr>\<rparr>)
   \<and> in_main (New 0 False 2
            \<lparr>ll := [(''x'', None)],
             historyCache := \<lparr> hc_k = 2, hc_maxBytes = 0, hc_useBytes = 2,
                                hc_ll = [(''x'', Some ''v'')], hc_cnt = [''x'' \<mapsto> 2] \<rparr>\<rparr>) ''x''
   \<and> in_history (New 0 False 2
            \<lparr>ll := [(''x'', None)],
             historyCache := \<lparr> hc_k = 2, hc_maxBytes = 0, hc_useBytes = 2,
                                hc_ll = [(''x'', Some ''v'')], hc_cnt = [''x'' \<mapsto> 2] \<rparr>\<rparr>) ''x''"
  by (simp add: lru_defs evict_loop.simps in_main_def in_history_def keys_of_def)

section \<open>Add on a key of the main queue\<close>

text \<open>
  C10, as amended: for a key present in the main queue with a value that is not nil,
  \<open>Add\<close> of a value that is not nil returns; it replaces the value of that entry and
  moves it to the front, changes \<open>useBytes\<close> of the main queue by the signed
  difference of the sizes (an \<open>int64\<close> addition, which wraps around), keeps every
  other entry of the main queue in its order, leaves the history queue with its
  counters unchanged, and does not invoke \<open>OnEvicted\<close>, whatever the size of the new
  value.
\<close>

theorem Add_main_hit:
  assumes "map_of (ll c) key = Some (Some old)"
  shows "\<exists>c'. Add c key (Some v) = Returns c'
          \<and> ll c' = (key, Some v) # remove1 (key, Some old) (ll c)
          \<and> filter (\<lambda>e. fst e \<noteq> key) (ll c') = filter (\<lambda>e. fst e \<noteq> key) (ll c)
          \<and> useBytes c' = useBytes c + (int64_len v - int64_len old)
          \<and> maxBytes c' = maxBytes c
          \<and> historyCache c' = historyCache c
          \<and> evicted c' = evicted c"
  using assms by (simp add: Add_def filter_remove1_other)

theorem Add_main_hit_witness:
  "map_of (ll (New 10 True 1\<lparr>ll := [(''b'', Some ''2''), (''a'', Some ''1'')], useBytes := 4\<rparr>)) ''a''
     = Some (Some ''1'')
   \<and> (\<exists>c'. Add (New 10 True 1\<lparr>ll := [(''b'', Some ''2''), (''a'', Some ''1'')], useBytes := 4\<rparr>)
             ''a'' (Some ''12345678901'') = Returns c'
          \<and> ll c' = [(''a'', Some ''12345678901''), (''b'', Some ''2'')]
          \<and> useBytes c' = 14
          \<and> evicted c' = [])"
proof -
  let ?c = "New 10 True 1\<lparr>ll := [(''b'', Some ''2''), (''a'', Some ''1'')], useBytes := 4\<rparr>"
  have h: "map_of (ll ?c) ''a'' = Some (Some ''1'')" by (simp add: New_def)
  from Add_main_hit[OF h, of "''12345678901''"] h show ?thesis
    by (auto simp: New_def int64_len_def)
qed

text \<open>
  The claim C10 as written, for every key of the main queue and every value, fails
  where a value is nil: \<open>Add("a", nil)\<close> on a key of the main queue moves the entry
  to the front and panics at \<open>value.Len()\<close>, and \<open>Add("x", "w")\<close> on the entry with a
  nil value that the panic of \<open>Get\<close> has left in the main queue panics at
  \<open>kv.value.Len()\<close>.
\<close>

theorem Add_main_hit_nil_counterexample:
  "run (New 10 True 1) [AddCall ''a'' (Some ''1'')]
     = Returns (New 10 True 1\<lparr>ll := [(''a'', Some ''1'')], useBytes := 2\<rparr>)
   \<and> in_main (New 10 True 1\<lparr>ll := [(''a'', Some ''1'')], useBytes := 2\<rparr>) ''a''
   \<and> Add (New 10 True 1\<lparr>ll := [(''a'', Some ''1'')], useBytes := 2\<rparr>) ''a'' None
     = Panics ''invalid memory address or nil pointer dereference''
         (New 10 True 1\<lparr>ll := [(''a'', Some ''1'')], useBytes := 2\<rparr>)
   \<and> in_main (New 0 False 2
            \<lparr>ll := [(''x'', None)],
             historyCache := \<lparr> hc_k = 2, hc_maxBytes = 0, hc_useBytes = 2,
                                hc_ll = [(''x'', Some ''v'')], hc_cnt = [''x'' \<mapsto> 2] \<rparr>\<rparr>) ''x''
   \<and> Add (New 0 False 2
            \<lparr>ll := [(''x'', None)],
             historyCache := \<lparr> hc_k = 2, hc_maxBytes = 0, hc_useBytes = 2,
                                hc_ll = [(''x'', Some ''v'')], hc_cnt = [''x'' \<mapsto> 2] \<rparr>\<rparr>) ''x'' (Some ''w'')
     = Panics ''invalid memory address or nil pointer dereference''
         (New 0 False 2
            \<lparr>ll := [(''x'', None)],
             historyCache := \<lparr> hc_k = 2, hc_maxBytes = 0, hc_useBytes = 2,
                                hc_ll = [(''x'', Some ''v'')], hc_cnt = [''x'' \<mapsto> 2] \<rparr>\<rparr>)"
  by (simp add: lru_defs evict_loop.simps in_main_def keys_of_def)

section \<open>The counters of the history queue\<close>

text \<open>
  C8: in every state reached from a new cache by \<open>Add\<close> and \<open>Get\<close> calls that return,
  a key has an entry in the counter map of the history queue if and only if it is in
  the history queue; so the counter is gone once the key has left that queue, by
  promotion or by eviction.
\<close>

theorem counter_iff_in_history:
  assumes "run (New maxB onEvicted kk) calls = Returns c"
  shows "has_counter c key = in_history c key"
proof -
  have "wf_cache c" using wf_New assms by (rule run_wf)
  then have "dom (hc_cnt (historyCache c)) = keys_of (hc_ll (historyCache c))"
    by (simp add: wf_cache_def)
  then show ?thesis by (auto simp: has_counter_def in_history_def)
qed

theorem counter_iff_in_history_witness:
  "run (New 10 True 2)
     [AddCall ''a'' (Some ''1''), AddCall ''a'' (Some ''1''),
      AddCall ''b'' (Some ''1234567''), AddCall ''c'' (Some ''123'')]
   = Returns \<lparr> maxBytes = 10, useBytes = 2, ll = [(''a'', Some ''1'')], OnEvicted = True,
               evicted = [(''b'', Some ''1234567'')],
               historyCache = \<lparr> hc_k = 2, hc_maxBytes = 10, hc_useBytes = 4,
                                hc_ll = [(''c'', Some ''123'')], hc_cnt = [''c'' \<mapsto> 1] \<rparr> \<rparr>
   \<and> has_counter \<lparr> maxBytes = 10, useBytes = 2, ll = [(''a'', Some ''1'')], OnEvicted = True,
               evicted = [(''b'', Some ''1234567'')],
               historyCache = \<lparr> hc_k = 2, hc_maxBytes = 10, hc_useBytes = 4,
                                hc_ll = [(''c'', Some ''123'')], hc_cnt = [''c'' \<mapsto> 1] \<rparr> \<rparr> ''b''
     = in_history \<lparr> maxBytes = 10, useBytes = 2, ll = [(''a'', Some ''1'')], OnEvicted = True,
               evicted = [(''b'', Some ''1234567'')],
               historyCache = \<lparr> hc_k = 2, hc_maxBytes = 10, hc_useBytes = 4,
                                hc_ll = [(''c'', Some ''123'')], hc_cnt = [''c'' \<mapsto> 1] \<rparr> \<rparr> ''b''"
proof -
  have h: "run (New 10 True 2)
     [AddCall ''a'' (Some ''1''), AddCall ''a'' (Some ''1''),
      AddCall ''b'' (Some ''1234567''), AddCall ''c'' (Some ''123'')]
   = Returns \<lparr> maxBytes = 10, useBytes = 2, ll = [(''a'', Some ''1'')], OnEvicted = True,
               evicted = [(''b'', Some ''1234567'')],
               historyCache = \<lparr> hc_k = 2, hc_maxBytes = 10, hc_useBytes = 4,
                                hc_ll = [(''c'', Some ''123'')], hc_cnt = [''c'' \<mapsto> 1] \<rparr> \<rparr>"
    by (simp add: lru_defs evict_loop.simps)
  from counter_iff_in_history[OF h] h show ?thesis by blast
qed

section \<open>The shard before its first add\<close>

text \<open>
  C9: for every key, \<open>get\<close> on a shard whose \<open>lru\<close> is still nil (no \<open>add\<close> has been
  called) returns the zero \<open>ByteView\<close> and \<open>false\<close>, and the shard is unchanged: \<open>lru\<close>
  stays nil.
\<close>

theorem get_unconstructed:
  "lru c = None \<Longrightarrow> cache_get c key = Returns ((zero_ByteView, False), c)"
  by (simp add: cache_get_def)

theorem get_unconstructed_witness:
  "lru \<lparr> lru = None, cacheBytes = 2048 \<rparr> = None
   \<and> cache_get \<lparr> lru = None, cacheBytes = 2048 \<rparr> ''Tom''
       = Returns ((ByteView [], False), \<lparr> lru = None, cacheBytes = 2048 \<rparr>)"
  using get_unconstructed[of "\<lparr> lru = None, cacheBytes = 2048 \<rparr>" "''Tom''"]
  by (simp add: zero_ByteView_def)

section \<open>Requests outside the base path\<close>

text \<open>
  C3, as amended: for every request whose path does not start with the base path of
  the pool, \<open>ServeHTTP\<close> panics with the message \<open>HTTPPool seving unexcepted path: \<close>
  followed by the path, and has written nothing: the response writer is, at the
  panic, as it was handed to the handler (status, headers and body).
\<close>

theorem ServeHTTP_outside_base_path:
  "\<not> HasPrefix (Path r) (basePath p) \<Longrightarrow>
   ServeHTTP GetGroup p w r = Panics (''HTTPPool seving unexcepted path: '' @ Path r) w"
  by (simp add: ServeHTTP_def)

theorem ServeHTTP_outside_base_path_witness:
  "\<not> HasPrefix (Path \<lparr> Method = ''GET'', Path = ''/api/scores/Tom'' \<rparr>)
        (basePath (NewHTTPPool ''http://localhost:8001''))
   \<and> ServeHTTP Map.empty (NewHTTPPool ''http://localhost:8001'') new_ResponseWriter
       \<lparr> Method = ''GET'', Path = ''/api/scores/Tom'' \<rparr>
     = Panics ''HTTPPool seving unexcepted path: /api/scores/Tom''
         \<lparr> status = None, header = Map.empty, body = [] \<rparr>"
proof -
  have h: "\<not> HasPrefix (Path \<lparr> Method = ''GET'', Path = ''/api/scores/Tom'' \<rparr>)
        (basePath (NewHTTPPool ''http://localhost:8001''))"
    by (simp add: HasPrefix_def NewHTTPPool_def defaultBasePath_def)
  from ServeHTTP_outside_base_path[OF h, of Map.empty new_ResponseWriter] h show ?thesis
    by (simp add: new_ResponseWriter_def)
qed

text \<open>
  The claim C3 as written (a client-error response and no panic) fails for the request
  \<open>GET /x\<close> on a pool with the default base path: the handler panics, and no status
  has been written.
\<close>

theorem ServeHTTP_client_error_counterexample:
  "\<not> HasPrefix ''/x'' (basePath (NewHTTPPool ''http://localhost:8001''))
   \<and> ServeHTTP Map.empty (NewHTTPPool ''http://localhost:8001'') new_ResponseWriter
       \<lparr> Method = ''GET'', Path = ''/x'' \<rparr>
     = Panics ''HTTPPool seving unexcepted path: /x''
         \<lparr> status = None, header = Map.empty, body = [] \<rparr>"
  by (simp add: ServeHTTP_def HasPrefix_def NewHTTPPool_def defaultBasePath_def
      new_ResponseWriter_def)

section \<open>The URL of a remote fetch\<close>

text \<open>
  C4 asks for a \<open>/\<close> between the escaped group and the escaped key. The code
  concatenates the base URL and the two escaped segments with nothing in between: for
  the group \<open>scores\<close> and the key \<open>Tom\<close> it requests \<open>.../_geecache/scoresTom\<close>, not
  \<open>.../_geecache/scores/Tom\<close>.
\<close>

theorem url_without_separator:
  "httpGetter_url \<lparr> baseURL = ''http://localhost:8001/_geecache/'' \<rparr> ''scores'' ''Tom''
     = ''http://localhost:8001/_geecache/scoresTom''
   \<and> httpGetter_url \<lparr> baseURL = ''http://localhost:8001/_geecache/'' \<rparr> ''scores'' ''Tom''
     \<noteq> ''http://localhost:8001/_geecache/'' @ QueryEscape ''scores'' @ ''/'' @ QueryEscape ''Tom''"
  by (simp add: httpGetter_url_def QueryEscape_def escape_byte_def shouldEscape_def)

text \<open>The server of the same pool answers the path of that URL with 400.\<close>

lemma client_path_rejected:
  "\<exists>w. ServeHTTP GetGroup (NewHTTPPool ''http://localhost:8001'') new_ResponseWriter
          \<lparr> Method = ''GET'', Path = ''/_geecache/scoresTom'' \<rparr> = Returns w
       \<and> status w = Some 400"
  by (simp add: ServeHTTP_def HasPrefix_def NewHTTPPool_def defaultBasePath_def SplitN2_def
      http_Error_def Write_def WriteHeader_def new_ResponseWriter_def)


end
